theory Spec2Isabelle
  imports Main "HOL-Library.Word" "HOL-Library.Sublist"
begin

section \<open>The asynchronous logger of cyber/logger/async_logger.h\<close>

text \<open>
  The header declares the class \<open>AsyncLogger\<close>, a double-buffered wrapper around a
  synchronous log sink, and defines inline the two private structs it buffers with:
  \<open>Msg\<close>, one buffered log line, and \<open>Buffer\<close>, a vector of messages with a size
  estimate and a flush flag. The three inline members of \<open>Buffer\<close> (\<open>clear\<close>, \<open>add\<close>,
  \<open>needs_flush_or_write\<close>) are embedded below as functions on a record.

  Integer types are kept at their width: \<open>time_t\<close> is a 64-bit word, \<open>int32_t\<close> and
  \<open>int\<close> are 32-bit words read with \<open>sint\<close>, and \<open>uint64_t\<close> is a 64-bit word read
  with \<open>unat\<close>. A \<open>std::string\<close> is a list of characters, its \<open>size()\<close> the length
  of the list.
\<close>

subsection \<open>Msg and Buffer\<close>

text \<open>
  \<^verbatim>\<open>struct Msg { time_t ts; std::string message; int32_t level; ... };\<close>
\<close>

record Msg =
  ts :: "64 word"
  message :: string
  level :: "32 word"

text \<open>
  \<^verbatim>\<open>struct Buffer { std::vector<Msg> messages; std::atomic<int> size = {0}; bool flush = false; ... };\<close>
  The field \<open>size\<close> is named \<open>size_est\<close> here (\<open>size\<close> is a constant of HOL).
\<close>

record Buffer =
  messages :: "Msg list"
  size_est :: "32 word"
  flush :: bool

text \<open>The buffer a controller allocates: \<^verbatim>\<open>Buffer() {}\<close> with the default member initialisers.\<close>

definition Buffer_new :: Buffer where
  "Buffer_new = \<lparr>messages = [], size_est = 0, flush = False\<rparr>"

text \<open>
  \<^verbatim>\<open>inline void clear() { messages.clear(); size = 0; flush = false; }\<close>
\<close>

definition Buffer_clear :: "Buffer \<Rightarrow> Buffer" where
  "Buffer_clear b = b\<lparr>messages := [], size_est := 0, flush := False\<rparr>"

text \<open>
  \<^verbatim>\<open>
  inline void add(Msg&& msg, bool force_flush) {
    size += static_cast<int>(sizeof(msg)) + static_cast<int>(msg.message.size());
    messages.emplace_back(std::move(msg));
    flush |= force_flush;
  }\<close>
  \<open>sizeof(msg)\<close> is a constant of the platform's ABI that the source does not fix; it
  is the parameter \<open>sz\<close> (a \<open>size_t\<close>, hence a natural number; 48 on the usual
  64-bit Linux ABI). Both casts to \<open>int\<close> keep the low 32 bits. \<open>+=\<close> on
  \<open>std::atomic<int>\<close> is defined as two's complement addition, which wraps around. The
  \<open>int\<close> addition of the two casts is undefined in C++ when it overflows; it is
  modelled as wrapping too, so that all three operations are \<open>+\<close> on \<open>32 word\<close>.
\<close>

definition Buffer_add :: "nat \<Rightarrow> Buffer \<Rightarrow> Msg \<Rightarrow> bool \<Rightarrow> Buffer" where
  "Buffer_add sz b msg force_flush =
     b\<lparr>size_est := size_est b + (word_of_nat sz + word_of_nat (length (message msg))),
       messages := messages b @ [msg],
       flush := (flush b \<or> force_flush)\<rparr>"

text \<open>
  \<^verbatim>\<open>inline bool needs_flush_or_write() const { return flush || !messages.empty(); }\<close>
\<close>

definition Buffer_needs_flush_or_write :: "Buffer \<Rightarrow> bool" where
  "Buffer_needs_flush_or_write b = (flush b \<or> messages b \<noteq> [])"

text \<open>
  A sequence of \<open>add\<close> calls on one buffer, each call given as the pair of its
  arguments, applied from left to right.
\<close>

fun add_all :: "nat \<Rightarrow> Buffer \<Rightarrow> (Msg \<times> bool) list \<Rightarrow> Buffer" where
  "add_all sz b [] = b"
| "add_all sz b (c # cs) = add_all sz (Buffer_add sz b (fst c) (snd c)) cs"

text \<open>
  The number of bytes one record is estimated at, as a mathematical integer: the
  per-record overhead \<open>sizeof(Msg)\<close> plus the length of the text.
\<close>

definition record_bytes :: "nat \<Rightarrow> Msg \<Rightarrow> nat" where
  "record_bytes sz msg = sz + length (message msg)"

text \<open>The largest value of an \<open>int\<close>.\<close>

definition INT_MAX :: int where
  "INT_MAX = 2 ^ 31 - 1"

subsection \<open>The controller\<close>

text \<open>
  \<^verbatim>\<open>enum State { INITTED, RUNNING, STOPPED }; State state_ = INITTED;\<close>
\<close>

datatype State = INITTED | RUNNING | STOPPED

text \<open>
  The data members of \<open>AsyncLogger\<close>, without the trailing underscore of their names:
  \<^verbatim>\<open>
  int max_buffer_bytes_;
  uint64_t flush_count_ = 0;
  uint64_t drop_count_ = 0;
  std::unique_ptr<Buffer> active_buf_;
  std::unique_ptr<Buffer> flushing_buf_;
  State state_ = INITTED;\<close>
  The mutex and the two condition variables hold no data; the wrapped sink and the
  writer thread are not part of this record.
\<close>

record AsyncLogger =
  max_buffer_bytes :: "32 word"
  flush_count :: "64 word"
  drop_count :: "64 word"
  active_buf :: Buffer
  flushing_buf :: Buffer
  state :: State

text \<open>
  Modelled from the spec: the condition the writer waits for (section 4.5, step 1; the
  writer's loop \<open>RunThread\<close> is declared in the header, its body in async_logger.cc is
  missing): "until one of: the active buffer is non-empty, a flush has been requested,
  or a stop has been signaled". The header's comments agree: the flusher is woken
  "either for new data or because state_ changed", and \<open>state_\<close> is the "trigger for the
  logger thread to stop".
\<close>

definition spec_wake_condition :: "AsyncLogger \<Rightarrow> bool" where
  "spec_wake_condition c =
     (messages (active_buf c) \<noteq> [] \<or> flush (active_buf c) \<or> state c = STOPPED)"

subsection \<open>The controller's operations and the writer's loop\<close>

text \<open>
  The header declares \<open>Start\<close>, \<open>Stop\<close>, \<open>Write\<close>, \<open>Flush\<close> and \<open>RunThread\<close>; their
  bodies are in async_logger.cc, which is missing from the sources. The definitions of
  this subsection are modelled from the spec, sections 4 and 5. Every operation is a
  partial function on the state of the whole system: \<open>None\<close> means that the step cannot
  be taken in that state (its precondition fails or the caller is blocked). A step is
  what the spec makes atomic: a critical section under the one lock, or one call of the
  sink by the writer outside the lock. An execution is a sequence of such steps, so
  producers, callers of \<open>Flush\<close> and the writer interleave in every possible way.
\<close>

text \<open>
  Modelled from the spec: the place of the writer task in its loop (section 4.5;
  \<open>RunThread\<close> is missing). \<open>Waiting\<close> is step 1, the wait at the head of the loop;
  \<open>Forwarding k final\<close> is step 3 with \<open>k\<close> records of the swapped-out buffer already
  forwarded; \<open>Clearing\<close> and \<open>Counting\<close> are the two halves of step 4. The flag \<open>final\<close>
  is true in the pass that began after the stop signal (step 5).
\<close>

datatype Writer = Not_started | Waiting | Forwarding nat bool | Clearing bool | Counting bool | Exited

text \<open>
  Modelled from the spec: a caller blocked in \<open>Flush\<close> (section 4.3; the body of
  \<open>Flush\<close> is missing). It remembers how many drain cycles had started when the call
  was issued, and, for the statement of the lower bound only, the records that had been
  appended by then.
\<close>

record Flush_wait =
  issued_cycles :: nat
  appended_before :: "Msg list"

text \<open>
  Modelled from the spec: the state of the whole system (sections 2, 3 and 6; the
  wrapped sink is an external collaborator). \<open>sink_written\<close> lists the calls of the
  sink's write operation in order, each with its \<open>force_flush\<close> argument, and
  \<open>sink_flushes\<close> counts the calls of its flush operation. \<open>appended\<close> is the history of
  the records appended by \<open>Write\<close>, in the order in which the lock was granted;
  \<open>cycles_started\<close> counts the swaps of the writer and \<open>cycles_done\<close> its completed
  drain cycles.
\<close>

record System =
  logger :: AsyncLogger
  writer :: Writer
  sink_written :: "(bool \<times> Msg) list"
  sink_flushes :: nat
  appended :: "Msg list"
  cycles_started :: nat
  cycles_done :: nat
  flush_waiting :: "Flush_wait list"

text \<open>
  Modelled from the spec: the constructor (section 6; its body is missing). Two empty
  buffers are allocated (section 3), the counters are 0 and the state is \<open>INITTED\<close>, as
  the header's default member initialisers say.
\<close>

definition initial :: "32 word \<Rightarrow> System" where
  "initial max_bytes =
     \<lparr>logger = \<lparr>max_buffer_bytes = max_bytes, flush_count = 0, drop_count = 0,
                active_buf = Buffer_new, flushing_buf = Buffer_new, state = INITTED\<rparr>,
      writer = Not_started, sink_written = [], sink_flushes = 0,
      appended = [], cycles_started = 0, cycles_done = 0, flush_waiting = []\<rparr>"

text \<open>
  Modelled from the spec: \<open>Start\<close> (section 4.1; its body is missing). It takes the
  controller from \<open>INITTED\<close> to \<open>RUNNING\<close> and spawns the writer task.
\<close>

definition Start :: "System \<Rightarrow> System option" where
  "Start s =
     (if state (logger s) = INITTED
      then Some (s\<lparr>logger := (logger s)\<lparr>state := RUNNING\<rparr>, writer := Waiting\<rparr>)
      else None)"

text \<open>
  Modelled from the spec: \<open>Stop\<close> (section 4.1; its body is missing). It takes the
  controller from \<open>RUNNING\<close> to \<open>STOPPED\<close>, which is the stop signal of the writer. The
  caller's wait for the writer to finish changes no state.
\<close>

definition Stop :: "System \<Rightarrow> System option" where
  "Stop s =
     (if state (logger s) = RUNNING
      then Some (s\<lparr>logger := (logger s)\<lparr>state := STOPPED\<rparr>\<rparr>)
      else None)"

text \<open>
  Modelled from the spec: the critical section of \<open>Write\<close> (section 4.2; its body is
  missing). The controller is \<open>RUNNING\<close>; a producer for whose record the backpressure
  test \<open>full\<close> holds stays blocked; otherwise the record is appended to the active
  buffer with \<open>Buffer::add\<close>, which also ORs \<open>force_flush\<close> into the buffer's flag. The
  argument \<open>msg\<close> is the record the call constructs from its timestamp and text.

  A producer that is still blocked when the controller stops does not append: the
  spec makes \<open>RUNNING\<close> the precondition of the operation and says no more about a call
  released by shutdown.

  The backpressure test is a parameter: \<open>BufferFull\<close> is declared in the header but its
  body is missing, and the spec words the test in two ways (sections 3 and 8 let a
  single append overshoot the budget, section 4.2 blocks the append that would exceed
  it). The order of the records and the guarantee of \<open>Flush\<close> are proved below for
  every test, the bound on the buffered size for every test that lets a producer
  through only while the buffered size is within the budget.
\<close>

definition Write :: "nat \<Rightarrow> (AsyncLogger \<Rightarrow> Msg \<Rightarrow> bool) \<Rightarrow> bool \<Rightarrow> Msg \<Rightarrow> System \<Rightarrow> System option" where
  "Write sz full force_flush msg s =
     (if state (logger s) = RUNNING \<and> \<not> full (logger s) msg
      then Some (s\<lparr>logger := (logger s)\<lparr>active_buf := Buffer_add sz (active_buf (logger s)) msg force_flush\<rparr>,
                  appended := appended s @ [msg]\<rparr>)
      else None)"

text \<open>
  Modelled from the spec: the backpressure test as section 4.2 words it (the bodies of
  \<open>Write\<close> and \<open>BufferFull\<close> are missing): "if appending to the active buffer would push
  its estimated size, summed with the flushing buffer's size, past the configured
  maximum, the calling thread blocks".
\<close>

definition over_budget :: "nat \<Rightarrow> AsyncLogger \<Rightarrow> Msg \<Rightarrow> bool" where
  "over_budget sz c msg =
     (sint (max_buffer_bytes c)
        < sint (size_est (active_buf c)) + int (record_bytes sz msg) + sint (size_est (flushing_buf c)))"

text \<open>
  Modelled from the spec: the first half of \<open>Flush\<close> (section 4.3; its body is missing).
  The call marks the active buffer's flush flag and starts to wait.
\<close>

definition Flush_enter :: "System \<Rightarrow> System option" where
  "Flush_enter s =
     (if state (logger s) = RUNNING
      then Some (s\<lparr>logger := (logger s)\<lparr>active_buf := (active_buf (logger s))\<lparr>flush := True\<rparr>\<rparr>,
                  flush_waiting := flush_waiting s
                     @ [\<lparr>issued_cycles = cycles_started s, appended_before = appended s\<rparr>]\<rparr>)
      else None)"

text \<open>
  Modelled from the spec: the condition a caller of \<open>Flush\<close> waits for (section 4.3):
  "until the writer has performed at least one full drain-and-write cycle that started
  after this call was issued". The writer is one task, so its cycles complete in the
  order in which they start: a cycle that started after the call has completed exactly
  when more cycles have completed than had started when the call was issued.
\<close>

definition flush_complete :: "System \<Rightarrow> Flush_wait \<Rightarrow> bool" where
  "flush_complete s w = (issued_cycles w < cycles_done s)"

text \<open>
  Modelled from the spec: the return of the \<open>i\<close>-th waiting call of \<open>Flush\<close> (section
  4.3).
\<close>

definition Flush_return :: "nat \<Rightarrow> System \<Rightarrow> System option" where
  "Flush_return i s =
     (if i < length (flush_waiting s) \<and> flush_complete s (flush_waiting s ! i)
      then Some (s\<lparr>flush_waiting := take i (flush_waiting s) @ drop (Suc i) (flush_waiting s)\<rparr>)
      else None)"

text \<open>
  Modelled from the spec: the swap of section 4.5, step 2, "constant-time pointer/handle
  exchange" of the two \<open>unique_ptr\<close> members.
\<close>

definition swap_buffers :: "AsyncLogger \<Rightarrow> AsyncLogger" where
  "swap_buffers c = c\<lparr>active_buf := flushing_buf c, flushing_buf := active_buf c\<rparr>"

text \<open>
  Modelled from the spec: one step of the writer's loop (section 4.5; \<open>RunThread\<close> is
  missing).
  \<^item> \<open>Waiting\<close>: when the wake condition holds, swap the buffers under the lock (steps 1
    and 2). A pass that begins after the stop signal is the final one (step 5).
  \<^item> \<open>Forwarding k final\<close>: forward record \<open>k\<close> of the swapped-out buffer to the sink's
    write operation, urgent when the buffer's flag is set and the record is the last
    one; after the last record call the sink's flush operation once if the flag is set
    (step 3).
  \<^item> \<open>Clearing\<close>, \<open>Counting\<close>: clear the drained buffer with \<open>Buffer::clear\<close>, then
    increment \<open>flush_count\<close>, which completes the cycle, and go back to the head of the
    loop or exit after the final pass (steps 4 and 5).
\<close>

definition RunThread_step :: "System \<Rightarrow> System option" where
  "RunThread_step s =
     (case writer s of
        Not_started \<Rightarrow> None
      | Waiting \<Rightarrow>
          if spec_wake_condition (logger s)
          then Some (s\<lparr>logger := swap_buffers (logger s),
                      writer := Forwarding 0 (state (logger s) = STOPPED),
                      cycles_started := Suc (cycles_started s)\<rparr>)
          else None
      | Forwarding k final \<Rightarrow>
          let buf = flushing_buf (logger s) in
          if k < length (messages buf)
          then Some (s\<lparr>sink_written := sink_written s
                         @ [(flush buf \<and> Suc k = length (messages buf), messages buf ! k)],
                      writer := Forwarding (Suc k) final\<rparr>)
          else Some (s\<lparr>sink_flushes := (if flush buf then Suc (sink_flushes s) else sink_flushes s),
                      writer := Clearing final\<rparr>)
      | Clearing final \<Rightarrow>
          Some (s\<lparr>logger := (logger s)\<lparr>flushing_buf := Buffer_clear (flushing_buf (logger s))\<rparr>,
                 writer := Counting final\<rparr>)
      | Counting final \<Rightarrow>
          Some (s\<lparr>logger := (logger s)\<lparr>flush_count := flush_count (logger s) + 1\<rparr>,
                 cycles_done := Suc (cycles_done s),
                 writer := (if final then Exited else Waiting)\<rparr>)
      | Exited \<Rightarrow> None)"

text \<open>
  Modelled from the spec: the steps of an execution (section 5: any number of producer
  threads, callers of \<open>Flush\<close> and one writer task, serialised by one lock), and the
  state an execution ends in, \<open>None\<close> when one of its steps cannot be taken. \<open>sz\<close> is
  \<open>sizeof(Msg)\<close> and \<open>full\<close> the backpressure test of \<open>Write\<close>.
\<close>

datatype Event = Call_Start | Call_Stop | Call_Write bool Msg | Call_Flush | Return_Flush nat | Writer_step

text \<open>
  Modelled from the spec: the effect of one step, by the operation it stands for.
\<close>

fun apply_event :: "nat \<Rightarrow> (AsyncLogger \<Rightarrow> Msg \<Rightarrow> bool) \<Rightarrow> System \<Rightarrow> Event \<Rightarrow> System option" where
  "apply_event sz full s Call_Start = Start s"
| "apply_event sz full s Call_Stop = Stop s"
| "apply_event sz full s (Call_Write force_flush msg) = Write sz full force_flush msg s"
| "apply_event sz full s Call_Flush = Flush_enter s"
| "apply_event sz full s (Return_Flush i) = Flush_return i s"
| "apply_event sz full s Writer_step = RunThread_step s"

text \<open>
  Modelled from the spec: an execution, its steps taken one after the other from a
  state.
\<close>

fun run :: "nat \<Rightarrow> (AsyncLogger \<Rightarrow> Msg \<Rightarrow> bool) \<Rightarrow> System \<Rightarrow> Event list \<Rightarrow> System option" where
  "run sz full s [] = Some s"
| "run sz full s (e # es) = (case apply_event sz full s e of None \<Rightarrow> None | Some s' \<Rightarrow> run sz full s' es)"

text \<open>
  The records of the swapped-out buffer that the writer has still to forward in its
  current pass.
\<close>

fun pending :: "Writer \<Rightarrow> Msg list \<Rightarrow> Msg list" where
  "pending (Forwarding k final) ms = drop k ms"
| "pending _ ms = []"

definition to_forward :: "System \<Rightarrow> Msg list" where
  "to_forward s = pending (writer s) (messages (flushing_buf (logger s)))"

text \<open>
  The invariants of the executions. \<open>order_inv\<close>: the history of appended records is the
  sink's records, then the records still to forward, then the active buffer; the
  flushing buffer is empty unless the writer is draining it; the writer does not run
  before \<open>Start\<close>. \<open>flush_inv\<close>: the writer has started at most one cycle that it has
  not completed, and the records appended before a waiting call of \<open>Flush\<close> are an
  initial part of the history, have left the active buffer once a later cycle has
  started, and are in the sink once that cycle has completed.
\<close>

fun draining :: "Writer \<Rightarrow> bool" where
  "draining (Forwarding k final) = True"
| "draining (Clearing final) = True"
| "draining _ = False"

fun in_cycle :: "Writer \<Rightarrow> bool" where
  "in_cycle (Forwarding k final) = True"
| "in_cycle (Clearing final) = True"
| "in_cycle (Counting final) = True"
| "in_cycle _ = False"

definition order_inv :: "System \<Rightarrow> bool" where
  "order_inv s =
     (map snd (sink_written s) @ to_forward s @ messages (active_buf (logger s)) = appended s
      \<and> (draining (writer s) \<or> messages (flushing_buf (logger s)) = [])
      \<and> (state (logger s) = INITTED \<longrightarrow> writer s = Not_started))"

definition flush_inv :: "System \<Rightarrow> bool" where
  "flush_inv s =
     (cycles_started s = (if in_cycle (writer s) then Suc (cycles_done s) else cycles_done s)
      \<and> (\<forall>w \<in> set (flush_waiting s).
            prefix (appended_before w) (appended s)
            \<and> (issued_cycles w < cycles_started s \<longrightarrow>
                  length (appended_before w) \<le> length (sink_written s) + length (to_forward s))
            \<and> (issued_cycles w < cycles_done s \<longrightarrow>
                  length (appended_before w) \<le> length (sink_written s))))"

text \<open>
  The buffered size: the sum of the size estimates of the two buffers, as \<open>int\<close> values.
\<close>

definition buffered :: "System \<Rightarrow> int" where
  "buffered s = sint (size_est (active_buf (logger s))) + sint (size_est (flushing_buf (logger s)))"

text \<open>The estimated size of the largest record in a list, 0 for the empty list.\<close>

fun largest_record :: "nat \<Rightarrow> Msg list \<Rightarrow> nat" where
  "largest_record sz [] = 0"
| "largest_record sz (m # ms) = max (record_bytes sz m) (largest_record sz ms)"

text \<open>
  Modelled from the spec: what both wordings of the backpressure test have in common
  (sections 3 and 4.2; the body of \<open>BufferFull\<close> is missing): a producer is let through
  only while the buffered size is within the budget. The test of section 4.2
  (\<open>over_budget\<close>) is one such test; a test that compares the buffered size before the
  append with the maximum, which is all a function with the declared signature
  \<^verbatim>\<open>bool BufferFull(const Buffer& buf) const\<close> can look at, is another.
\<close>

definition admits_within_budget :: "(AsyncLogger \<Rightarrow> Msg \<Rightarrow> bool) \<Rightarrow> bool" where
  "admits_within_budget full =
     (\<forall>c m. \<not> full c m \<longrightarrow>
        sint (size_est (active_buf c)) + sint (size_est (flushing_buf c)) \<le> sint (max_buffer_bytes c))"

text \<open>
  The invariants of the budget. \<open>overshoot_inv\<close>, for every test that admits within
  budget: the configured maximum never changes; the buffered size is at most the
  maximum plus the largest record appended so far; and both estimates are non-negative
  unless a record so large has been appended that this bound is beyond \<open>INT_MAX\<close>.
  \<open>budget_inv\<close>, for the test of section 4.2: both estimates are non-negative and the
  buffered size is at most the maximum.
\<close>

definition overshoot_inv :: "nat \<Rightarrow> 32 word \<Rightarrow> System \<Rightarrow> bool" where
  "overshoot_inv sz max_bytes s =
     (max_buffer_bytes (logger s) = max_bytes
      \<and> buffered s \<le> sint max_bytes + int (largest_record sz (appended s))
      \<and> (0 \<le> sint (size_est (active_buf (logger s))) \<and> 0 \<le> sint (size_est (flushing_buf (logger s)))
           \<or> INT_MAX < sint max_bytes + int (largest_record sz (appended s))))"

definition budget_inv :: "32 word \<Rightarrow> System \<Rightarrow> bool" where
  "budget_inv max_bytes s =
     (max_buffer_bytes (logger s) = max_bytes
      \<and> 0 \<le> sint (size_est (active_buf (logger s)))
      \<and> 0 \<le> sint (size_est (flushing_buf (logger s)))
      \<and> buffered s \<le> sint max_bytes)"

subsection \<open>Buffer: lemmas\<close>

lemma messages_add_all:
  "messages (add_all sz b cs) = messages b @ map fst cs"
  by (induction cs arbitrary: b) (simp_all add: Buffer_add_def)

lemma flush_add_all:
  "flush (add_all sz b cs) = (flush b \<or> foldr (\<or>) (map snd cs) False)"
  by (induction cs arbitrary: b) (auto simp: Buffer_add_def)

lemma size_est_Buffer_add:
  "size_est (Buffer_add sz b m f) = size_est b + word_of_nat (record_bytes sz m)"
  by (simp add: Buffer_add_def record_bytes_def)

lemma size_est_add_all:
  "size_est (add_all sz b cs) =
     size_est b + word_of_nat (sum_list (map (record_bytes sz \<circ> fst) cs))"
  by (induction cs arbitrary: b) (simp_all add: size_est_Buffer_add algebra_simps)

text \<open>
  The signed reading of a 32-bit sum: adding a natural number to an \<open>int\<close> gives the
  mathematical sum when that sum is at most \<open>INT_MAX\<close>.
\<close>

lemma sint_word_of_int_32: "sint (word_of_int k :: 32 word) = signed_take_bit 31 k"
  by (simp add: sint_sbintrunc')

lemma sint_add_nat_stb:
  fixes w :: "32 word"
  shows "sint (w + word_of_nat n) = signed_take_bit 31 (sint w + int n)"
proof -
  have "w + word_of_nat n = word_of_int (sint w + int n)"
    by simp
  then show ?thesis
    by (simp only: sint_word_of_int_32)
qed

lemma sint_add_nat_exact:
  fixes w :: "32 word"
  assumes "sint w + int n \<le> INT_MAX"
  shows "sint (w + word_of_nat n) = sint w + int n"
proof -
  have lo: "- (2 ^ 31) \<le> sint w"
    using sint_ge [of w] by simp
  have "signed_take_bit 31 (sint w + int n) = sint w + int n"
    using lo assms by (intro signed_take_bit_int_eq_self) (simp_all add: INT_MAX_def)
  then show ?thesis
    by (simp only: sint_add_nat_stb)
qed

lemma sint_add_nat_le:
  fixes w :: "32 word"
  shows "sint (w + word_of_nat n) \<le> sint w + int n"
proof -
  have "- (2 ^ 31) \<le> sint w + int n"
    using sint_ge [of w] by simp
  then have "signed_take_bit 31 (sint w + int n) \<le> sint w + int n"
    by (simp only: signed_take_bit_int_less_eq_self_iff)
  then show ?thesis
    by (simp only: sint_add_nat_stb)
qed

lemma sint_le_INT_MAX: "sint (w :: 32 word) \<le> INT_MAX"
  using sint_lt [of w] by (simp add: INT_MAX_def)

subsection \<open>Buffer: the claims\<close>

text \<open>
  Claim C5. For every buffer, immediately after \<open>clear()\<close> the size estimate is 0, the
  sequence of records is empty and the flush flag is false.
\<close>

theorem Buffer_clear_empty:
  "size_est (Buffer_clear b) = 0 \<and> messages (Buffer_clear b) = [] \<and> \<not> flush (Buffer_clear b)"
  by (simp add: Buffer_clear_def)

text \<open>
  Claim C6, as amended. The size estimate is a 32-bit \<open>int\<close>. Each \<open>add\<close> adds the
  per-record overhead plus the length of the text to it modulo \<open>2 ^ 32\<close> (first
  conjunct). As long as the sum stays at most \<open>INT_MAX\<close>, the increase is exactly the
  overhead plus the length and the estimate does not decrease (second conjunct), and
  after any sequence of \<open>add\<close> calls since the last \<open>clear\<close> whose records sum up to at
  most \<open>INT_MAX\<close>, the estimate is that sum (third conjunct).
\<close>

theorem Buffer_size_is_sum_in_range:
  "size_est (Buffer_add sz b m f) = size_est b + word_of_nat (record_bytes sz m)
   \<and> (sint (size_est b) + int (record_bytes sz m) \<le> INT_MAX \<longrightarrow>
        sint (size_est (Buffer_add sz b m f)) = sint (size_est b) + int (record_bytes sz m)
        \<and> sint (size_est b) \<le> sint (size_est (Buffer_add sz b m f)))
   \<and> (int (sum_list (map (record_bytes sz \<circ> fst) cs)) \<le> INT_MAX \<longrightarrow>
        sint (size_est (add_all sz (Buffer_clear b) cs))
          = int (sum_list (map (record_bytes sz \<circ> fst) cs)))"
proof (intro conjI impI)
  show "size_est (Buffer_add sz b m f) = size_est b + word_of_nat (record_bytes sz m)"
    by (rule size_est_Buffer_add)
next
  assume fits: "sint (size_est b) + int (record_bytes sz m) \<le> INT_MAX"
  then show exact: "sint (size_est (Buffer_add sz b m f)) = sint (size_est b) + int (record_bytes sz m)"
    by (simp only: size_est_Buffer_add sint_add_nat_exact)
  then show "sint (size_est b) \<le> sint (size_est (Buffer_add sz b m f))"
    by simp
next
  let ?total = "sum_list (map (record_bytes sz \<circ> fst) cs)"
  assume fits: "int ?total \<le> INT_MAX"
  have "size_est (add_all sz (Buffer_clear b) cs) = 0 + word_of_nat ?total"
    by (simp add: size_est_add_all Buffer_clear_def)
  moreover have "sint (0 + word_of_nat ?total :: 32 word) = sint (0 :: 32 word) + int ?total"
    using fits by (intro sint_add_nat_exact) simp
  ultimately show "sint (size_est (add_all sz (Buffer_clear b) cs)) = int ?total"
    by simp
qed

text \<open>
  The amended claim at a concrete input: with an overhead of 48 bytes, a fresh buffer
  that receives "hello" is estimated at 53 bytes, and a cleared buffer that receives
  "hello" and "bye" at 104.
\<close>

theorem Buffer_size_is_sum_in_range_witness:
  "sint (size_est Buffer_new) + int (record_bytes 48 \<lparr>ts = 7, message = ''hello'', level = 1\<rparr>) \<le> INT_MAX
   \<and> sint (size_est (Buffer_add 48 Buffer_new \<lparr>ts = 7, message = ''hello'', level = 1\<rparr> False)) = 53
   \<and> int (sum_list (map (record_bytes 48 \<circ> fst)
        [(\<lparr>ts = 7, message = ''hello'', level = 1\<rparr>, False), (\<lparr>ts = 8, message = ''bye'', level = 2\<rparr>, True)])) \<le> INT_MAX
   \<and> sint (size_est (add_all 48 (Buffer_clear Buffer_new)
        [(\<lparr>ts = 7, message = ''hello'', level = 1\<rparr>, False), (\<lparr>ts = 8, message = ''bye'', level = 2\<rparr>, True)])) = 104"
  using Buffer_size_is_sum_in_range [of 48 Buffer_new "\<lparr>ts = 7, message = ''hello'', level = 1\<rparr>" False
      "[(\<lparr>ts = 7, message = ''hello'', level = 1\<rparr>, False), (\<lparr>ts = 8, message = ''bye'', level = 2\<rparr>, True)]"]
  by (simp add: record_bytes_def INT_MAX_def Buffer_new_def)

text \<open>
  Claim C6 as stated fails where the estimate leaves the range of \<open>int\<close>. With an
  overhead of 48 bytes, a fresh buffer that receives a message of \<open>2 ^ 30\<close> bytes is
  estimated at 1073741872; after a second such message the estimate is -2147483552:
  it has decreased, and it is not the previous estimate plus 48 plus the length.
\<close>

theorem Buffer_size_wraps_counterexample:
  "sint (size_est (Buffer_add 48
       (Buffer_add 48 Buffer_new \<lparr>ts = 0, message = replicate (2 ^ 30) CHR ''x'', level = 0\<rparr> False)
          \<lparr>ts = 0, message = replicate (2 ^ 30) CHR ''x'', level = 0\<rparr> False))
     < sint (size_est (Buffer_add 48 Buffer_new \<lparr>ts = 0, message = replicate (2 ^ 30) CHR ''x'', level = 0\<rparr> False))
   \<and> sint (size_est (Buffer_add 48
       (Buffer_add 48 Buffer_new \<lparr>ts = 0, message = replicate (2 ^ 30) CHR ''x'', level = 0\<rparr> False)
          \<lparr>ts = 0, message = replicate (2 ^ 30) CHR ''x'', level = 0\<rparr> False))
     \<noteq> sint (size_est (Buffer_add 48 Buffer_new \<lparr>ts = 0, message = replicate (2 ^ 30) CHR ''x'', level = 0\<rparr> False))
         + int (record_bytes 48 \<lparr>ts = 0, message = replicate (2 ^ 30) CHR ''x'', level = 0\<rparr>)"
  by (simp add: Buffer_add_def Buffer_new_def record_bytes_def)

text \<open>
  Claim C7. Each \<open>add\<close> ORs its \<open>force_flush\<close> argument into the flag; after any
  sequence of \<open>add\<close> calls since the last \<open>clear\<close> the flag is the logical OR of their
  \<open>force_flush\<close> arguments; and a flag that is set stays set through any sequence of
  \<open>add\<close> calls.
\<close>

theorem Buffer_flush_is_or:
  "flush (Buffer_add sz b m f) = (flush b \<or> f)
   \<and> flush (add_all sz (Buffer_clear b) cs) = foldr (\<or>) (map snd cs) False
   \<and> (flush b \<longrightarrow> flush (add_all sz b cs))"
  by (simp add: flush_add_all) (simp add: Buffer_add_def Buffer_clear_def)

theorem Buffer_flush_is_or_witness:
  "flush (Buffer_add 48 Buffer_new \<lparr>ts = 7, message = ''hello'', level = 1\<rparr> True)
   \<and> flush (add_all 48 (Buffer_add 48 Buffer_new \<lparr>ts = 7, message = ''hello'', level = 1\<rparr> True)
        [(\<lparr>ts = 8, message = ''bye'', level = 2\<rparr>, False)])"
  using Buffer_flush_is_or [of 48 "Buffer_add 48 Buffer_new \<lparr>ts = 7, message = ''hello'', level = 1\<rparr> True"
      "\<lparr>ts = 8, message = ''bye'', level = 2\<rparr>" False "[(\<lparr>ts = 8, message = ''bye'', level = 2\<rparr>, False)]"]
  by (simp add: Buffer_add_def Buffer_new_def)

text \<open>
  Claim C9. For every buffer and every message, right after \<open>add(msg, force_flush)\<close>,
  whatever \<open>force_flush\<close> is, \<open>needs_flush_or_write()\<close> returns true.
\<close>

theorem Buffer_add_needs_flush_or_write:
  "Buffer_needs_flush_or_write (Buffer_add sz b m f)"
  by (simp add: Buffer_needs_flush_or_write_def Buffer_add_def)

subsection \<open>The executions: invariants\<close>

text \<open>
  A property that every step preserves is preserved by every execution.
\<close>

lemma run_invariant:
  assumes "run sz full s evs = Some s'" and "P s"
    and step: "\<And>s e s'. apply_event sz full s e = Some s' \<Longrightarrow> P s \<Longrightarrow> P s'"
  shows "P s'"
  using assms(1,2)
proof (induction evs arbitrary: s)
  case Nil
  then show ?case by simp
next
  case (Cons e es)
  from Cons.prems(1) obtain t where t: "apply_event sz full s e = Some t" and r: "run sz full t es = Some s'"
    by (auto split: option.splits)
  from step [OF t Cons.prems(2)] have "P t" .
  with Cons.IH [OF r] show ?case .
qed

text \<open>The order and the flush invariant hold initially and every step preserves them.\<close>

lemma initial_order_inv: "order_inv (initial max_bytes)"
  by (simp add: order_inv_def initial_def to_forward_def Buffer_new_def)

lemma initial_flush_inv: "flush_inv (initial max_bytes)"
  by (simp add: flush_inv_def initial_def)

lemma Start_order_inv: "Start s = Some s' \<Longrightarrow> order_inv s \<Longrightarrow> order_inv s'"
  by (auto simp: Start_def order_inv_def to_forward_def split: if_splits)

lemma Stop_order_inv: "Stop s = Some s' \<Longrightarrow> order_inv s \<Longrightarrow> order_inv s'"
  by (auto simp: Stop_def order_inv_def to_forward_def split: if_splits)

lemma Write_order_inv: "Write sz full f m s = Some s' \<Longrightarrow> order_inv s \<Longrightarrow> order_inv s'"
  by (auto simp: Write_def order_inv_def to_forward_def Buffer_add_def split: if_splits)

lemma Flush_enter_order_inv: "Flush_enter s = Some s' \<Longrightarrow> order_inv s \<Longrightarrow> order_inv s'"
  by (auto simp: Flush_enter_def order_inv_def to_forward_def split: if_splits)

lemma Flush_return_order_inv: "Flush_return i s = Some s' \<Longrightarrow> order_inv s \<Longrightarrow> order_inv s'"
  by (auto simp: Flush_return_def order_inv_def to_forward_def split: if_splits)

lemma RunThread_step_order_inv:
  assumes "RunThread_step s = Some s'" and "order_inv s"
  shows "order_inv s'"
proof (cases "writer s")
  case Waiting
  with assms show ?thesis
    by (auto simp: RunThread_step_def order_inv_def to_forward_def swap_buffers_def split: if_splits)
next
  case (Forwarding k final)
  with assms show ?thesis
    by (auto simp: RunThread_step_def order_inv_def to_forward_def Let_def
        Cons_nth_drop_Suc [symmetric] split: if_splits)
next
  case (Clearing final)
  with assms show ?thesis
    by (auto simp: RunThread_step_def order_inv_def to_forward_def Buffer_clear_def)
next
  case (Counting final)
  with assms show ?thesis
    by (auto simp: RunThread_step_def order_inv_def to_forward_def)
qed (use assms in \<open>simp_all add: RunThread_step_def\<close>)

lemma apply_event_order_inv: "apply_event sz full s e = Some s' \<Longrightarrow> order_inv s \<Longrightarrow> order_inv s'"
  by (cases e) (simp_all add: Start_order_inv Stop_order_inv Write_order_inv Flush_enter_order_inv
      Flush_return_order_inv RunThread_step_order_inv)

lemma run_order_inv:
  assumes "run sz full s evs = Some s'" and "order_inv s"
  shows "order_inv s'"
  using assms by (rule run_invariant) (rule apply_event_order_inv)

lemma Start_flush_inv: "Start s = Some s' \<Longrightarrow> order_inv s \<Longrightarrow> flush_inv s \<Longrightarrow> flush_inv s'"
  by (auto simp: Start_def order_inv_def flush_inv_def to_forward_def split: if_splits)

lemma Stop_flush_inv: "Stop s = Some s' \<Longrightarrow> flush_inv s \<Longrightarrow> flush_inv s'"
  by (auto simp: Stop_def flush_inv_def to_forward_def split: if_splits)

lemma Write_flush_inv: "Write sz full f m s = Some s' \<Longrightarrow> flush_inv s \<Longrightarrow> flush_inv s'"
  by (fastforce simp: Write_def flush_inv_def to_forward_def split: if_splits)

lemma Flush_enter_flush_inv: "Flush_enter s = Some s' \<Longrightarrow> flush_inv s \<Longrightarrow> flush_inv s'"
  by (auto simp: Flush_enter_def flush_inv_def to_forward_def split: if_splits)

lemma Flush_return_flush_inv: "Flush_return i s = Some s' \<Longrightarrow> flush_inv s \<Longrightarrow> flush_inv s'"
  by (auto simp: Flush_return_def flush_inv_def to_forward_def split: if_splits
      dest!: in_set_takeD in_set_dropD)

lemma RunThread_step_flush_inv:
  assumes "RunThread_step s = Some s'" and "order_inv s" and "flush_inv s"
  shows "flush_inv s'"
proof (cases "writer s")
  case Not_started
  with assms show ?thesis by (simp add: RunThread_step_def)
next
  case Waiting
  have len: "length (appended s) = length (sink_written s) + length (messages (active_buf (logger s)))"
    using assms(2) Waiting by (auto simp: order_inv_def to_forward_def dest: arg_cong [where f = length])
  have "\<forall>w \<in> set (flush_waiting s). length (appended_before w) \<le> length (appended s)"
    using assms(3) by (auto simp: flush_inv_def dest: prefix_length_le)
  then show ?thesis
    using assms Waiting len
    by (auto simp: RunThread_step_def flush_inv_def to_forward_def swap_buffers_def
        split: if_splits)
next
  case (Forwarding k final)
  with assms show ?thesis
    by (auto simp: RunThread_step_def flush_inv_def to_forward_def Let_def
        split: if_splits)
next
  case (Clearing final)
  with assms show ?thesis
    by (auto simp: RunThread_step_def flush_inv_def to_forward_def)
next
  case (Counting final)
  with assms show ?thesis
    by (cases final) (auto simp: RunThread_step_def flush_inv_def to_forward_def)
next
  case Exited
  with assms show ?thesis by (simp add: RunThread_step_def)
qed

lemma apply_event_flush_inv:
  "apply_event sz full s e = Some s' \<Longrightarrow> order_inv s \<Longrightarrow> flush_inv s \<Longrightarrow> flush_inv s'"
  by (cases e) (simp_all add: Start_flush_inv Stop_flush_inv Write_flush_inv Flush_enter_flush_inv
      Flush_return_flush_inv RunThread_step_flush_inv)

lemma run_flush_inv:
  assumes "run sz full s evs = Some s'" and "order_inv s" and "flush_inv s"
  shows "flush_inv s'"
proof -
  from assms(2,3) have "order_inv s \<and> flush_inv s" ..
  with assms(1) have "order_inv s' \<and> flush_inv s'"
    by (rule run_invariant) (auto dest: apply_event_order_inv apply_event_flush_inv)
  then show ?thesis ..
qed

text \<open>
  The budget. Whatever the test, as long as it admits within budget, an append takes
  the buffered size to at most the maximum plus the size of the appended record; the
  estimates stay non-negative until an append leaves the range of \<open>int\<close>, which
  takes a record larger than \<open>INT_MAX\<close> minus the maximum.
\<close>

lemma largest_record_snoc:
  "largest_record sz (ms @ [m]) = max (largest_record sz ms) (record_bytes sz m)"
  by (induction ms) auto

lemma over_budget_admits: "admits_within_budget (over_budget sz)"
  by (auto simp: admits_within_budget_def over_budget_def)

lemma initial_overshoot_inv: "0 \<le> sint max_bytes \<Longrightarrow> overshoot_inv sz max_bytes (initial max_bytes)"
  by (simp add: overshoot_inv_def buffered_def initial_def Buffer_new_def)

lemma Write_overshoot_inv:
  assumes "Write sz full f m s = Some s'" and "admits_within_budget full" and "overshoot_inv sz max_bytes s"
  shows "overshoot_inv sz max_bytes s'"
proof -
  let ?a = "sint (size_est (active_buf (logger s)))"
  let ?f = "sint (size_est (flushing_buf (logger s)))"
  let ?a' = "sint (size_est (Buffer_add sz (active_buf (logger s)) m f))"
  let ?n = "int (record_bytes sz m)"
  let ?R = "int (largest_record sz (appended s))"
  let ?R' = "int (largest_record sz (appended s @ [m]))"
  from assms(1) have nf: "\<not> full (logger s) m"
    and s': "s' = s\<lparr>logger := (logger s)\<lparr>active_buf := Buffer_add sz (active_buf (logger s)) m f\<rparr>,
                  appended := appended s @ [m]\<rparr>"
    by (auto simp: Write_def split: if_splits)
  from assms(3) have mx: "max_buffer_bytes (logger s) = max_bytes"
    and phase: "0 \<le> ?a \<and> 0 \<le> ?f \<or> INT_MAX < sint max_bytes + ?R"
    by (simp_all add: overshoot_inv_def)
  from assms(2) nf mx have fits: "?a + ?f \<le> sint max_bytes"
    by (auto simp: admits_within_budget_def)
  have R': "?R' = max ?R ?n"
    by (simp add: largest_record_snoc)
  have le: "?a' \<le> ?a + ?n"
    by (simp only: size_est_Buffer_add sint_add_nat_le)
  have bound: "?a' + ?f \<le> sint max_bytes + ?R'"
    using le fits R' by linarith
  have phase': "0 \<le> ?a' \<and> 0 \<le> ?f \<or> INT_MAX < sint max_bytes + ?R'"
  proof (cases "0 \<le> ?a \<and> 0 \<le> ?f")
    case nonneg: True
    show ?thesis
    proof (cases "?a + ?n \<le> INT_MAX")
      case True
      then have "?a' = ?a + ?n"
        by (simp only: size_est_Buffer_add sint_add_nat_exact)
      with nonneg show ?thesis by simp
    next
      case False
      with nonneg fits R' show ?thesis by linarith
    qed
  next
    case False
    with phase R' show ?thesis by linarith
  qed
  show ?thesis
    using bound phase' mx by (simp add: overshoot_inv_def buffered_def s')
qed

lemma RunThread_step_overshoot_inv:
  assumes "RunThread_step s = Some s'" and "overshoot_inv sz max_bytes s"
  shows "overshoot_inv sz max_bytes s'"
proof (cases "writer s")
  case Waiting
  with assms show ?thesis
    by (auto simp: RunThread_step_def overshoot_inv_def buffered_def swap_buffers_def split: if_splits)
next
  case (Forwarding k final)
  with assms show ?thesis
    by (auto simp: RunThread_step_def overshoot_inv_def buffered_def Let_def split: if_splits)
next
  case (Clearing final)
  with assms sint_le_INT_MAX [of "size_est (active_buf (logger s))"] show ?thesis
    by (auto simp: RunThread_step_def overshoot_inv_def buffered_def Buffer_clear_def)
next
  case (Counting final)
  with assms show ?thesis
    by (auto simp: RunThread_step_def overshoot_inv_def buffered_def)
qed (use assms in \<open>simp_all add: RunThread_step_def\<close>)

lemma apply_event_overshoot_inv:
  assumes "apply_event sz full s e = Some s'" and "admits_within_budget full" and "overshoot_inv sz max_bytes s"
  shows "overshoot_inv sz max_bytes s'"
proof (cases e)
  case (Call_Write f m)
  with assms show ?thesis by (simp add: Write_overshoot_inv)
next
  case Writer_step
  with assms show ?thesis by (simp add: RunThread_step_overshoot_inv)
qed (use assms in \<open>auto simp: Start_def Stop_def Flush_enter_def Flush_return_def overshoot_inv_def buffered_def split: if_splits\<close>)

lemma run_overshoot_inv:
  assumes "run sz full s evs = Some s'" and "admits_within_budget full" and "overshoot_inv sz max_bytes s"
  shows "overshoot_inv sz max_bytes s'"
  using assms(1,3) by (rule run_invariant) (rule apply_event_overshoot_inv [OF _ assms(2)])

text \<open>
  With the test of section 4.2 an append never takes the buffered size past the
  maximum, so no estimate leaves the range of \<open>int\<close>.
\<close>

lemma initial_budget_inv: "0 \<le> sint max_bytes \<Longrightarrow> budget_inv max_bytes (initial max_bytes)"
  by (simp add: budget_inv_def buffered_def initial_def Buffer_new_def)

lemma Write_budget_inv:
  assumes "Write sz (over_budget sz) f m s = Some s'" and "budget_inv max_bytes s"
  shows "budget_inv max_bytes s'"
proof -
  let ?a = "size_est (active_buf (logger s))"
  let ?f = "size_est (flushing_buf (logger s))"
  from assms(1) have fits: "sint ?a + int (record_bytes sz m) + sint ?f \<le> sint (max_buffer_bytes (logger s))"
    and s': "s' = s\<lparr>logger := (logger s)\<lparr>active_buf := Buffer_add sz (active_buf (logger s)) m f\<rparr>,
                  appended := appended s @ [m]\<rparr>"
    by (auto simp: Write_def over_budget_def split: if_splits)
  from assms(2) have mx: "max_buffer_bytes (logger s) = max_bytes"
    and a0: "0 \<le> sint ?a" and f0: "0 \<le> sint ?f"
    by (simp_all add: budget_inv_def)
  have "sint ?a + int (record_bytes sz m) \<le> INT_MAX"
    using fits f0 sint_le_INT_MAX [of "max_buffer_bytes (logger s)"] by linarith
  then have exact: "sint (size_est (Buffer_add sz (active_buf (logger s)) m f)) = sint ?a + int (record_bytes sz m)"
    by (simp only: size_est_Buffer_add sint_add_nat_exact)
  show ?thesis
    using exact fits mx a0 f0 by (simp add: budget_inv_def buffered_def s')
qed

lemma RunThread_step_budget_inv:
  assumes "RunThread_step s = Some s'" and "budget_inv max_bytes s"
  shows "budget_inv max_bytes s'"
proof (cases "writer s")
  case Waiting
  with assms show ?thesis
    by (auto simp: RunThread_step_def budget_inv_def buffered_def swap_buffers_def split: if_splits)
next
  case (Forwarding k final)
  with assms show ?thesis
    by (auto simp: RunThread_step_def budget_inv_def buffered_def Let_def split: if_splits)
next
  case (Clearing final)
  with assms show ?thesis
    by (auto simp: RunThread_step_def budget_inv_def buffered_def Buffer_clear_def)
next
  case (Counting final)
  with assms show ?thesis
    by (auto simp: RunThread_step_def budget_inv_def buffered_def)
qed (use assms in \<open>simp_all add: RunThread_step_def\<close>)

lemma apply_event_budget_inv:
  assumes "apply_event sz (over_budget sz) s e = Some s'" and "budget_inv max_bytes s"
  shows "budget_inv max_bytes s'"
proof (cases e)
  case (Call_Write f m)
  with assms show ?thesis by (simp add: Write_budget_inv)
next
  case Writer_step
  with assms show ?thesis by (simp add: RunThread_step_budget_inv)
qed (use assms in \<open>auto simp: Start_def Stop_def Flush_enter_def Flush_return_def budget_inv_def buffered_def split: if_splits\<close>)

lemma run_budget_inv:
  assumes "run sz (over_budget sz) s evs = Some s'" and "budget_inv max_bytes s"
  shows "budget_inv max_bytes s'"
  using assms by (rule run_invariant) (rule apply_event_budget_inv)

lemma reachable_order_inv: "run sz full (initial max_bytes) evs = Some s \<Longrightarrow> order_inv s"
  by (rule run_order_inv [OF _ initial_order_inv])

lemma reachable_flush_inv: "run sz full (initial max_bytes) evs = Some s \<Longrightarrow> flush_inv s"
  by (rule run_flush_inv [OF _ initial_order_inv initial_flush_inv])

subsection \<open>The controller: the claims\<close>

text \<open>
  Claim C8. \<open>needs_flush_or_write()\<close> returns true if and only if the buffer's flush
  flag is set or its list of messages is not empty (first conjunct). The wake condition
  of the writer is this predicate on the active buffer, or the stop signal (second
  conjunct). And the writer task that waits at the head of its loop takes its next
  step, the swap, exactly when the active buffer is non-empty, a flush has been
  requested on it, or stop has been signalled; it stays at its wait otherwise (third
  and fourth conjunct).
\<close>

theorem needs_flush_or_write_iff_wake:
  "(Buffer_needs_flush_or_write b \<longleftrightarrow> flush b \<or> messages b \<noteq> [])
   \<and> (spec_wake_condition c \<longleftrightarrow> Buffer_needs_flush_or_write (active_buf c) \<or> state c = STOPPED)
   \<and> (writer s = Waiting \<longrightarrow>
        (RunThread_step s \<noteq> None
           \<longleftrightarrow> messages (active_buf (logger s)) \<noteq> [] \<or> flush (active_buf (logger s))
                 \<or> state (logger s) = STOPPED))
   \<and> (writer s = Waiting \<longrightarrow>
        (RunThread_step s \<noteq> None
           \<longleftrightarrow> Buffer_needs_flush_or_write (active_buf (logger s)) \<or> state (logger s) = STOPPED))"
proof (intro conjI impI)
  show "Buffer_needs_flush_or_write b \<longleftrightarrow> flush b \<or> messages b \<noteq> []"
    by (simp add: Buffer_needs_flush_or_write_def)
next
  show "spec_wake_condition c \<longleftrightarrow> Buffer_needs_flush_or_write (active_buf c) \<or> state c = STOPPED"
    by (auto simp: spec_wake_condition_def Buffer_needs_flush_or_write_def)
next
  assume "writer s = Waiting"
  then have step: "RunThread_step s \<noteq> None \<longleftrightarrow> spec_wake_condition (logger s)"
    by (simp add: RunThread_step_def)
  show "RunThread_step s \<noteq> None
          \<longleftrightarrow> messages (active_buf (logger s)) \<noteq> [] \<or> flush (active_buf (logger s))
                \<or> state (logger s) = STOPPED"
    unfolding step by (simp add: spec_wake_condition_def)
  show "RunThread_step s \<noteq> None
          \<longleftrightarrow> Buffer_needs_flush_or_write (active_buf (logger s)) \<or> state (logger s) = STOPPED"
    unfolding step by (auto simp: spec_wake_condition_def Buffer_needs_flush_or_write_def)
qed

text \<open>
  At concrete inputs. After \<open>Start\<close> and one \<open>Write\<close> without \<open>force_flush\<close> the writer
  is at its wait, the active buffer is not empty, and the writer can take its step.
  After \<open>Start\<close> alone the writer is at its wait, the active buffer is empty with its
  flag unset, the controller is running, and the writer cannot take a step.
\<close>

theorem needs_flush_or_write_iff_wake_witness:
  "writer (the (run 48 (over_budget 48) (initial 1024)
      [Call_Start, Call_Write False \<lparr>ts = 7, message = ''hello'', level = 1\<rparr>])) = Waiting
   \<and> Buffer_needs_flush_or_write (active_buf (logger (the (run 48 (over_budget 48) (initial 1024)
      [Call_Start, Call_Write False \<lparr>ts = 7, message = ''hello'', level = 1\<rparr>]))))
   \<and> RunThread_step (the (run 48 (over_budget 48) (initial 1024)
      [Call_Start, Call_Write False \<lparr>ts = 7, message = ''hello'', level = 1\<rparr>])) \<noteq> None
   \<and> writer (the (run 48 (over_budget 48) (initial 1024) [Call_Start])) = Waiting
   \<and> \<not> Buffer_needs_flush_or_write (active_buf (logger (the (run 48 (over_budget 48) (initial 1024)
      [Call_Start]))))
   \<and> state (logger (the (run 48 (over_budget 48) (initial 1024) [Call_Start]))) = RUNNING
   \<and> RunThread_step (the (run 48 (over_budget 48) (initial 1024) [Call_Start])) = None"
proof -
  let ?s = "the (run 48 (over_budget 48) (initial 1024)
      [Call_Start, Call_Write False \<lparr>ts = 7, message = ''hello'', level = 1\<rparr>])"
  let ?t = "the (run 48 (over_budget 48) (initial 1024) [Call_Start])"
  have ws: "writer ?s = Waiting"
    by code_simp
  have ns: "Buffer_needs_flush_or_write (active_buf (logger ?s))"
    by code_simp
  have wt: "writer ?t = Waiting"
    by code_simp
  have nt: "\<not> Buffer_needs_flush_or_write (active_buf (logger ?t))"
    by code_simp
  have rt: "state (logger ?t) = RUNNING"
    by code_simp
  from needs_flush_or_write_iff_wake [of _ _ ?s] ws ns
  have steps: "RunThread_step ?s \<noteq> None"
    by blast
  from needs_flush_or_write_iff_wake [of _ _ ?t] wt nt rt
  have "\<not> RunThread_step ?t \<noteq> None"
    by (metis State.distinct(5))
  then have blocked: "RunThread_step ?t = None"
    by simp
  from ws ns steps wt nt rt blocked show ?thesis
    by (intro conjI)
qed

subsection \<open>The executions: the scenario of the spec\<close>

text \<open>
  Section 8 of the spec gives a concrete scenario: with a budget of 1024 bytes, one
  thread writes 10 records of about 50 bytes without \<open>force_flush\<close> and calls
  \<open>Flush\<close>; when the call returns the sink has received exactly the 10 records in
  submission order and \<open>flush_count\<close> is at least 1. Then one record is written with
  \<open>force_flush\<close>, and the sink's flush operation is invoked once more without a call
  of \<open>Flush\<close>. The executions defined above behave so. The records are told apart by
  their timestamps 0 to 10.
\<close>

lemma spec_scenario_after_Flush:
  "map_option (\<lambda>s. (map (unat \<circ> ts \<circ> snd) (sink_written s), sink_flushes s, unat (flush_count (logger s))))
     (run 48 (over_budget 48) (initial 1024)
        (Call_Start
         # map (\<lambda>i. Call_Write False \<lparr>ts = word_of_nat i, message = replicate 50 CHR ''x'', level = 0\<rparr>) [0..<10]
         @ Call_Flush # replicate 14 Writer_step @ [Return_Flush 0]))
   = Some ([0, 1, 2, 3, 4, 5, 6, 7, 8, 9], 1, 1)"
  by code_simp

lemma spec_scenario_after_forced_write:
  "map_option (\<lambda>s. (map (unat \<circ> ts \<circ> snd) (sink_written s), sink_flushes s, unat (flush_count (logger s))))
     (run 48 (over_budget 48) (initial 1024)
        (Call_Start
         # map (\<lambda>i. Call_Write False \<lparr>ts = word_of_nat i, message = replicate 50 CHR ''x'', level = 0\<rparr>) [0..<10]
         @ Call_Flush # replicate 14 Writer_step
         @ [Return_Flush 0, Call_Write True \<lparr>ts = 10, message = replicate 50 CHR ''x'', level = 0\<rparr>]
         @ replicate 3 Writer_step))
   = Some ([0, 1, 2, 3, 4, 5, 6, 7, 8, 9, 10], 2, 1)"
  by code_simp

subsection \<open>The executions: the claims\<close>

text \<open>
  Claim C3. A buffer keeps its records in the order of the \<open>add\<close> calls (first
  conjunct). In every execution the sink has received, in the order in which they were
  appended, an initial part of the records appended so far: the history of appended
  records is the sink's records, followed by the records of the swapped-out buffer
  still to forward, followed by the records of the active buffer (second and third
  conjunct). So the sink sees the records of one producer in the order of its \<open>Write\<close>
  calls, the records of one buffer generation in append order, and every record of a
  generation before any record of the next one.
\<close>

theorem sink_order_is_append_order:
  assumes "run sz full (initial max_bytes) evs = Some s"
  shows "messages (add_all sz b cs) = messages b @ map fst cs
         \<and> map snd (sink_written s) @ to_forward s @ messages (active_buf (logger s)) = appended s
         \<and> prefix (map snd (sink_written s)) (appended s)"
proof -
  have eq: "map snd (sink_written s) @ to_forward s @ messages (active_buf (logger s)) = appended s"
    using reachable_order_inv [OF assms] by (simp add: order_inv_def)
  then have "prefix (map snd (sink_written s)) (appended s)"
    by (metis prefixI)
  with eq show ?thesis
    by (simp add: messages_add_all)
qed

text \<open>
  An execution with one producer: two records are appended, the writer swaps and
  forwards the first one, and a third record is appended meanwhile.
\<close>

theorem sink_order_is_append_order_witness:
  "run 48 (over_budget 48) (initial 1024)
      [Call_Start, Call_Write False \<lparr>ts = 1, message = ''one'', level = 0\<rparr>,
       Call_Write True \<lparr>ts = 2, message = ''two'', level = 1\<rparr>, Writer_step, Writer_step,
       Call_Write False \<lparr>ts = 3, message = ''three'', level = 2\<rparr>] \<noteq> None
   \<and> map snd (sink_written (the (run 48 (over_budget 48) (initial 1024)
      [Call_Start, Call_Write False \<lparr>ts = 1, message = ''one'', level = 0\<rparr>,
       Call_Write True \<lparr>ts = 2, message = ''two'', level = 1\<rparr>, Writer_step, Writer_step,
       Call_Write False \<lparr>ts = 3, message = ''three'', level = 2\<rparr>])))
      = [\<lparr>ts = 1, message = ''one'', level = 0\<rparr>]
   \<and> prefix [\<lparr>ts = 1, message = ''one'', level = 0\<rparr>]
      (appended (the (run 48 (over_budget 48) (initial 1024)
      [Call_Start, Call_Write False \<lparr>ts = 1, message = ''one'', level = 0\<rparr>,
       Call_Write True \<lparr>ts = 2, message = ''two'', level = 1\<rparr>, Writer_step, Writer_step,
       Call_Write False \<lparr>ts = 3, message = ''three'', level = 2\<rparr>])))"
proof -
  let ?r = "run 48 (over_budget 48) (initial 1024)
      [Call_Start, Call_Write False \<lparr>ts = 1, message = ''one'', level = 0\<rparr>,
       Call_Write True \<lparr>ts = 2, message = ''two'', level = 1\<rparr>, Writer_step, Writer_step,
       Call_Write False \<lparr>ts = 3, message = ''three'', level = 2\<rparr>]"
  have ok: "?r \<noteq> None"
    by code_simp
  have r: "?r = Some (the ?r)"
    by (rule option.collapse [symmetric, OF ok])
  have w: "map snd (sink_written (the ?r)) = [\<lparr>ts = 1, message = ''one'', level = 0\<rparr>]"
    by code_simp
  from sink_order_is_append_order [OF r]
  have "prefix (map snd (sink_written (the ?r))) (appended (the ?r))"
    by simp
  then have p: "prefix [\<lparr>ts = 1, message = ''one'', level = 0\<rparr>] (appended (the ?r))"
    by (simp only: w)
  from ok w p show ?thesis
    by (intro conjI)
qed

text \<open>
  Claim C1. When a waiting call of \<open>Flush\<close> returns, every record that had been
  appended when the call was issued has been forwarded to the sink's write operation:
  these records are the first records the sink has received, in append order.
\<close>

theorem Flush_returns_after_forwarding:
  assumes "run sz full (initial max_bytes) evs = Some s" and "Flush_return i s = Some s'"
  shows "prefix (appended_before (flush_waiting s ! i)) (map snd (sink_written s'))"
proof -
  let ?w = "flush_waiting s ! i"
  from assms(2) have i: "i < length (flush_waiting s)" and c: "flush_complete s ?w"
    and s': "sink_written s' = sink_written s"
    by (auto simp: Flush_return_def split: if_splits)
  from i have "?w \<in> set (flush_waiting s)"
    by simp
  with reachable_flush_inv [OF assms(1)] c
  have p: "prefix (appended_before ?w) (appended s)"
    and n: "length (appended_before ?w) \<le> length (map snd (sink_written s))"
    by (auto simp: flush_inv_def flush_complete_def)
  have "appended s = map snd (sink_written s) @ to_forward s @ messages (active_buf (logger s))"
    using reachable_order_inv [OF assms(1)] by (simp add: order_inv_def)
  then have q: "prefix (map snd (sink_written s)) (appended s)"
    by simp
  from p q n have "prefix (appended_before ?w) (map snd (sink_written s))"
    by (rule prefix_length_prefix)
  with s' show ?thesis
    by simp
qed

text \<open>
  An execution in which \<open>Flush\<close> is called after two records were appended: the writer
  swaps, forwards both, flushes the sink, clears the buffer and counts the cycle, and
  the call returns.
\<close>

theorem Flush_returns_after_forwarding_witness:
  "run 48 (over_budget 48) (initial 1024)
      [Call_Start, Call_Write False \<lparr>ts = 1, message = ''one'', level = 0\<rparr>,
       Call_Write True \<lparr>ts = 2, message = ''two'', level = 1\<rparr>, Call_Flush,
       Writer_step, Writer_step, Writer_step, Writer_step, Writer_step, Writer_step] \<noteq> None
   \<and> Flush_return 0 (the (run 48 (over_budget 48) (initial 1024)
      [Call_Start, Call_Write False \<lparr>ts = 1, message = ''one'', level = 0\<rparr>,
       Call_Write True \<lparr>ts = 2, message = ''two'', level = 1\<rparr>, Call_Flush,
       Writer_step, Writer_step, Writer_step, Writer_step, Writer_step, Writer_step])) \<noteq> None
   \<and> appended_before (flush_waiting (the (run 48 (over_budget 48) (initial 1024)
      [Call_Start, Call_Write False \<lparr>ts = 1, message = ''one'', level = 0\<rparr>,
       Call_Write True \<lparr>ts = 2, message = ''two'', level = 1\<rparr>, Call_Flush,
       Writer_step, Writer_step, Writer_step, Writer_step, Writer_step, Writer_step])) ! 0)
      = [\<lparr>ts = 1, message = ''one'', level = 0\<rparr>, \<lparr>ts = 2, message = ''two'', level = 1\<rparr>]
   \<and> prefix [\<lparr>ts = 1, message = ''one'', level = 0\<rparr>, \<lparr>ts = 2, message = ''two'', level = 1\<rparr>]
      (map snd (sink_written (the (Flush_return 0 (the (run 48 (over_budget 48) (initial 1024)
      [Call_Start, Call_Write False \<lparr>ts = 1, message = ''one'', level = 0\<rparr>,
       Call_Write True \<lparr>ts = 2, message = ''two'', level = 1\<rparr>, Call_Flush,
       Writer_step, Writer_step, Writer_step, Writer_step, Writer_step, Writer_step]))))))"
proof -
  let ?r = "run 48 (over_budget 48) (initial 1024)
      [Call_Start, Call_Write False \<lparr>ts = 1, message = ''one'', level = 0\<rparr>,
       Call_Write True \<lparr>ts = 2, message = ''two'', level = 1\<rparr>, Call_Flush,
       Writer_step, Writer_step, Writer_step, Writer_step, Writer_step, Writer_step]"
  have ok: "?r \<noteq> None"
    by code_simp
  have r: "?r = Some (the ?r)"
    by (rule option.collapse [symmetric, OF ok])
  have ok': "Flush_return 0 (the ?r) \<noteq> None"
    by code_simp
  have r': "Flush_return 0 (the ?r) = Some (the (Flush_return 0 (the ?r)))"
    by (rule option.collapse [symmetric, OF ok'])
  have n: "appended_before (flush_waiting (the ?r) ! 0)
      = [\<lparr>ts = 1, message = ''one'', level = 0\<rparr>, \<lparr>ts = 2, message = ''two'', level = 1\<rparr>]"
    by code_simp
  from Flush_returns_after_forwarding [OF r r']
  have l: "prefix [\<lparr>ts = 1, message = ''one'', level = 0\<rparr>, \<lparr>ts = 2, message = ''two'', level = 1\<rparr>]
      (map snd (sink_written (the (Flush_return 0 (the ?r)))))"
    by (simp only: n)
  from ok ok' n l show ?thesis
    by (intro conjI)
qed

text \<open>
  Claim C2. With a non-negative \<open>max_buffer_bytes\<close> and a backpressure test that admits
  within budget, in every state an execution reaches the sum of the size estimates of
  the active and the flushing buffer is at most \<open>max_buffer_bytes\<close> plus the estimated
  size of one record, the largest one appended so far.
\<close>

theorem buffered_size_bounded:
  assumes "0 \<le> sint max_bytes" and "admits_within_budget full"
    and "run sz full (initial max_bytes) evs = Some s"
  shows "buffered s \<le> sint max_bytes + int (largest_record sz (appended s))"
  using run_overshoot_inv [OF assms(3) assms(2) initial_overshoot_inv [OF assms(1)]]
  by (simp add: overshoot_inv_def)

text \<open>
  An execution with a budget of 100 bytes and the test of section 4.2: a record of 51
  bytes is appended, the buffered size is 51, and a second record of 51 bytes is then
  over budget, so its producer is blocked.
\<close>

theorem buffered_size_bounded_witness:
  "0 \<le> sint (100 :: 32 word)
   \<and> admits_within_budget (over_budget 48)
   \<and> run 48 (over_budget 48) (initial 100)
        [Call_Start, Call_Write False \<lparr>ts = 1, message = ''one'', level = 0\<rparr>] \<noteq> None
   \<and> buffered (the (run 48 (over_budget 48) (initial 100)
        [Call_Start, Call_Write False \<lparr>ts = 1, message = ''one'', level = 0\<rparr>])) = 51
   \<and> buffered (the (run 48 (over_budget 48) (initial 100)
        [Call_Start, Call_Write False \<lparr>ts = 1, message = ''one'', level = 0\<rparr>]))
      \<le> sint (100 :: 32 word) + int (largest_record 48 (appended (the (run 48 (over_budget 48) (initial 100)
        [Call_Start, Call_Write False \<lparr>ts = 1, message = ''one'', level = 0\<rparr>]))))
   \<and> Write 48 (over_budget 48) True \<lparr>ts = 2, message = ''two'', level = 1\<rparr>
        (the (run 48 (over_budget 48) (initial 100)
        [Call_Start, Call_Write False \<lparr>ts = 1, message = ''one'', level = 0\<rparr>])) = None"
proof -
  let ?r = "run 48 (over_budget 48) (initial 100)
        [Call_Start, Call_Write False \<lparr>ts = 1, message = ''one'', level = 0\<rparr>]"
  have h: "0 \<le> sint (100 :: 32 word)"
    by simp
  have ok: "?r \<noteq> None"
    by code_simp
  have r: "?r = Some (the ?r)"
    by (rule option.collapse [symmetric, OF ok])
  have b: "buffered (the ?r) = 51"
    by code_simp
  have blocked: "Write 48 (over_budget 48) True \<lparr>ts = 2, message = ''two'', level = 1\<rparr> (the ?r) = None"
    by code_simp
  note le = buffered_size_bounded [OF h over_budget_admits r]
  from h over_budget_admits ok b le blocked show ?thesis
    by (intro conjI)
qed

text \<open>
  With the test exactly as section 4.2 words it there is no overshoot at all: the
  buffered size never exceeds \<open>max_buffer_bytes\<close>.
\<close>

lemma over_budget_no_overshoot:
  assumes "0 \<le> sint max_bytes" and "run sz (over_budget sz) (initial max_bytes) evs = Some s"
  shows "buffered s \<le> sint max_bytes"
  using run_budget_inv [OF assms(2) initial_budget_inv [OF assms(1)]]
  by (simp add: budget_inv_def)

end
